theory Spec2Isabelle
  imports Main
begin

section \<open>JavaScript objects used as ordered dictionaries\<close>

text \<open>
  \<^verbatim>\<open>file_cache.ts\<close> keeps its two tables, \<^verbatim>\<open>fileCache\<close> and \<^verbatim>\<open>lastDigests\<close>, in plain
  JavaScript objects and relies on the order in which \<^verbatim>\<open>Object.keys\<close> lists the
  properties ("JavaScript hash maps are linked lists"). An object is modelled as the list
  of its own properties in the order of \<^verbatim>\<open>Object.keys\<close>.
\<close>

type_synonym 'v js_object = "(string \<times> 'v) list"

subsection \<open>The order of the keys\<close>

text \<open>
  \<^verbatim>\<open>Object.keys\<close> lists first the keys that are array indices, in ascending numeric
  order, and then the other keys in the order in which they were created. An array index
  is the canonical decimal string of a number from 0 to \<open>2^32 - 2\<close>: digits only and no
  leading zero.
\<close>

definition digit_of :: "char \<Rightarrow> nat option" where
  "digit_of =
     map_of [(CHR ''0'', 0), (CHR ''1'', 1), (CHR ''2'', 2), (CHR ''3'', 3), (CHR ''4'', 4),
             (CHR ''5'', 5), (CHR ''6'', 6), (CHR ''7'', 7), (CHR ''8'', 8), (CHR ''9'', 9)]"

fun decimal :: "string \<Rightarrow> nat \<Rightarrow> nat option" where
  "decimal [] acc = Some acc"
| "decimal (c # cs) acc =
     (case digit_of c of None \<Rightarrow> None | Some d \<Rightarrow> decimal cs (10 * acc + d))"

definition array_index_value :: "string \<Rightarrow> nat option" where
  "array_index_value k =
     (case k of
        [] \<Rightarrow> None
      | c # cs \<Rightarrow>
          (if c = CHR ''0'' \<and> cs \<noteq> [] then None
           else (case decimal k 0 of
                   None \<Rightarrow> None
                 | Some n \<Rightarrow> (if n < 4294967295 then Some n else None))))"

definition array_index :: "string \<Rightarrow> bool" where
  "array_index k = (array_index_value k \<noteq> None)"

text \<open>
  \<open>key_order a b\<close>: the key \<open>a\<close> may stand before the key \<open>b\<close> in \<^verbatim>\<open>Object.keys\<close>.
  Nothing stands before an array index but an array index of a smaller number.
\<close>

definition key_order :: "string \<Rightarrow> string \<Rightarrow> bool" where
  "key_order a b =
     (case array_index_value b of
        None \<Rightarrow> True
      | Some nb \<Rightarrow> (case array_index_value a of None \<Rightarrow> False | Some na \<Rightarrow> na < nb))"

text \<open>The decimal numeral of a number, used to show that an array index determines its key.\<close>

definition digit_char :: "nat \<Rightarrow> char" where
  "digit_char d = (if d < 10 then ''0123456789'' ! d else CHR ''0'')"

fun numeral_of :: "nat \<Rightarrow> string" where
  "numeral_of n =
     (if n < 10 then [digit_char n] else numeral_of (n div 10) @ [digit_char (n mod 10)])"

declare numeral_of.simps [simp del]

subsection \<open>The operations on an object\<close>

text \<open>
  \<^item> \<^verbatim>\<open>Object.keys(obj)\<close>: the own keys, in the order above;
  \<^item> \<open>js_get\<close>: the own property under a key, \<open>None\<close> when the object has none;
  \<^item> \<^verbatim>\<open>delete obj[k]\<close> removes the key, and is a no-op when the key is missing;
  \<^item> \<^verbatim>\<open>obj[k] = v\<close> keeps the position of a key that is already there; a new key that
    is an array index goes to its numeric place among the array indices, and any
    other new key to the end.

  A plain object also inherits properties from \<^verbatim>\<open>Object.prototype\<close>. Under the names
  below a read \<^verbatim>\<open>obj[k]\<close> of an object that has no own property \<open>k\<close> finds a
  built-in (a function, or the prototype itself), which is truthy, and an assignment to
  \<^verbatim>\<open>__proto__\<close> sets the prototype and creates no property. The operations here
  know own properties only: they are the operations of the code for every key that is
  not such a name, and the properties below that depend on it say so in a hypothesis.
\<close>

definition inherited_name :: "string \<Rightarrow> bool" where
  "inherited_name k =
     (k \<in> set [''constructor'', ''__defineGetter__'', ''__defineSetter__'', ''hasOwnProperty'',
               ''__lookupGetter__'', ''__lookupSetter__'', ''isPrototypeOf'',
               ''propertyIsEnumerable'', ''toString'', ''valueOf'', ''__proto__'',
               ''toLocaleString''])"

text \<open>A key that is a path in the sense the cache relies on.\<close>

definition plain_key :: "string \<Rightarrow> bool" where
  "plain_key k = (\<not> array_index k \<and> \<not> inherited_name k)"

definition js_keys :: "'v js_object \<Rightarrow> string list" where
  "js_keys obj = map fst obj"

definition js_get :: "'v js_object \<Rightarrow> string \<Rightarrow> 'v option" where
  "js_get obj k = map_of obj k"

fun js_delete :: "'v js_object \<Rightarrow> string \<Rightarrow> 'v js_object" where
  "js_delete [] k = []"
| "js_delete ((k', v) # obj) k = (if k' = k then js_delete obj k else (k', v) # js_delete obj k)"

fun js_replace :: "'v js_object \<Rightarrow> string \<Rightarrow> 'v \<Rightarrow> 'v js_object" where
  "js_replace [] k v = []"
| "js_replace ((k', v') # obj) k v =
     (if k' = k then (k, v) # obj else (k', v') # js_replace obj k v)"

fun js_insert_index :: "'v js_object \<Rightarrow> string \<Rightarrow> 'v \<Rightarrow> 'v js_object" where
  "js_insert_index [] k v = [(k, v)]"
| "js_insert_index ((k', v') # obj) k v =
     (if key_order k' k then (k', v') # js_insert_index obj k v else (k, v) # (k', v') # obj)"

definition js_set :: "'v js_object \<Rightarrow> string \<Rightarrow> 'v \<Rightarrow> 'v js_object" where
  "js_set obj k v =
     (if k \<in> set (js_keys obj) then js_replace obj k v
      else if array_index k then js_insert_index obj k v
      else obj @ [(k, v)])"

text \<open>A well-formed object has no key twice, and its keys stand in the order of \<^verbatim>\<open>Object.keys\<close>.\<close>

definition js_wf :: "'v js_object \<Rightarrow> bool" where
  "js_wf obj = (distinct (js_keys obj) \<and> sorted_wrt key_order (js_keys obj))"

section \<open>The cache: \<^verbatim>\<open>FileCache\<close>\<close>

text \<open>
  \<^verbatim>\<open>interface CacheEntry<CachedType> { digest: string; value: CachedType; }\<close>
  The field \<^verbatim>\<open>value\<close> is written \<open>value'\<close>.
\<close>

record 'v CacheEntry =
  digest :: string
  value' :: 'v

text \<open>
  \<^verbatim>\<open>cacheStats = { hits: 0, reads: 0, readTimeMs: 0 }\<close>. The counters are JavaScript
  numbers; they are modelled as unbounded (\<^verbatim>\<open>++\<close> is exact below \<open>2^53\<close>).
\<close>

record CacheStats =
  hits :: nat
  reads :: nat
  readTimeMs :: int

text \<open>
  The mutable fields of the class. The \<^verbatim>\<open>debug\<close> callback only logs and is left out.
  \<^verbatim>\<open>shouldFreeMemory\<close> reads the memory use of the process; what it answers is an
  input of \<open>putCache\<close>.
\<close>

record 'v FileCache =
  fileCache :: "'v CacheEntry js_object"
  lastDigests :: "string js_object"
  cacheStats :: CacheStats

definition newFileCache :: "'v FileCache" where
  "newFileCache = \<lparr> fileCache = [], lastDigests = [],
                    cacheStats = \<lparr> hits = 0, reads = 0, readTimeMs = 0 \<rparr> \<rparr>"

text \<open>Errors thrown by the code. Both carry the message of the JavaScript \<^verbatim>\<open>Error\<close>.\<close>

datatype error = MissingDigest string | IOError string

subsection \<open>\<^verbatim>\<open>updateCache\<close>\<close>

text \<open>
  \<^verbatim>\<open>
  this.lastDigests = digests;
  for (const fp of Object.keys(digests)) {
    const entry = this.fileCache[fp];
    if (entry && entry.digest !== digests[fp]) { delete this.fileCache[fp]; }
  }
  \<close>
  An entry is an object, hence truthy whenever it is there.
\<close>

fun updateCache_loop :: "string js_object \<Rightarrow> string list \<Rightarrow> 'v CacheEntry js_object
    \<Rightarrow> 'v CacheEntry js_object" where
  "updateCache_loop digests [] fc = fc"
| "updateCache_loop digests (fp # fps) fc =
     updateCache_loop digests fps
       (case js_get fc fp of
          None \<Rightarrow> fc
        | Some entry \<Rightarrow>
            (if Some (digest entry) \<noteq> js_get digests fp then js_delete fc fp else fc))"

definition updateCache :: "'v FileCache \<Rightarrow> string js_object \<Rightarrow> 'v FileCache" where
  "updateCache s digests =
     s\<lparr> lastDigests := digests,
        fileCache := updateCache_loop digests (js_keys digests) (fileCache s) \<rparr>"

subsection \<open>\<^verbatim>\<open>getLastDigest\<close> and \<^verbatim>\<open>isKnownInput\<close>\<close>

text \<open>
  A digest is a string, and the only falsy string is the empty one: \<^verbatim>\<open>!digest\<close> holds
  for \<^verbatim>\<open>undefined\<close> (no digest recorded) and for \<^verbatim>\<open>""\<close>.
\<close>

definition truthy_string :: "string option \<Rightarrow> bool" where
  "truthy_string d = (case d of None \<Rightarrow> False | Some x \<Rightarrow> x \<noteq> [])"

text \<open>An array inside a template literal is joined with commas.\<close>

fun js_join :: "string list \<Rightarrow> string" where
  "js_join [] = []"
| "js_join [x] = x"
| "js_join (x # y # ys) = x @ '','' @ js_join (y # ys)"

definition missing_digest_message :: "string \<Rightarrow> string list \<Rightarrow> string" where
  "missing_digest_message filePath ks =
     ''missing input digest for '' @ filePath @ ''.'' @ ''(only have '' @ js_join ks @ '')''"

definition getLastDigest :: "'v FileCache \<Rightarrow> string \<Rightarrow> error + string" where
  "getLastDigest s filePath =
     (case js_get (lastDigests s) filePath of
        None \<Rightarrow> Inl (MissingDigest (missing_digest_message filePath (js_keys (lastDigests s))))
      | Some d \<Rightarrow>
          (if d = []
           then Inl (MissingDigest (missing_digest_message filePath (js_keys (lastDigests s))))
           else Inr d))"

text \<open>\<^verbatim>\<open>return !!this.lastDigests[filePath];\<close>\<close>

definition isKnownInput :: "'v FileCache \<Rightarrow> string \<Rightarrow> bool" where
  "isKnownInput s filePath = truthy_string (js_get (lastDigests s) filePath)"

subsection \<open>\<^verbatim>\<open>getCache\<close>\<close>

text \<open>
  \<^verbatim>\<open>
  this.cacheStats.reads++;
  const entry = this.fileCache[filePath];
  if (!entry) { return undefined; }
  else { this.cacheStats.hits++;
         delete this.fileCache[filePath]; this.fileCache[filePath] = entry;
         return entry.value; }
  \<close>
  The result \<^verbatim>\<open>undefined\<close> of a miss is \<open>None\<close>.
\<close>

definition getCache :: "'v FileCache \<Rightarrow> string \<Rightarrow> 'v option \<times> 'v FileCache" where
  "getCache s filePath =
     (let s1 = s\<lparr> cacheStats := (cacheStats s)\<lparr> reads := reads (cacheStats s) + 1 \<rparr> \<rparr> in
      case js_get (fileCache s1) filePath of
        None \<Rightarrow> (None, s1)
      | Some entry \<Rightarrow>
          (Some (value' entry),
           s1\<lparr> cacheStats := (cacheStats s1)\<lparr> hits := hits (cacheStats s1) + 1 \<rparr>,
               fileCache := js_set (js_delete (fileCache s1) filePath) filePath entry \<rparr>))"

subsection \<open>\<^verbatim>\<open>putCache\<close>\<close>

text \<open>
  \<^verbatim>\<open>Math.round(keys.length / 2)\<close>: the length is a natural number, half of it is exact,
  and \<^verbatim>\<open>Math.round\<close> rounds a half upwards.
\<close>

definition math_round_half :: "nat \<Rightarrow> nat" where
  "math_round_half n = (n + 1) div 2"

text \<open>\<^verbatim>\<open>keys[i]\<close>; out of range it is \<^verbatim>\<open>undefined\<close>, which as a property name reads "undefined".\<close>

definition js_index_key :: "string list \<Rightarrow> nat \<Rightarrow> string" where
  "js_index_key ks i = (if i < length ks then ks ! i else ''undefined'')"

text \<open>\<^verbatim>\<open>for (let i = 0; i < dropped; i++) { delete this.fileCache[keys[i]]; }\<close>\<close>

function putCache_loop :: "string list \<Rightarrow> nat \<Rightarrow> nat \<Rightarrow> 'v js_object \<Rightarrow> 'v js_object" where
  "putCache_loop ks dropped i fc =
     (if i < dropped then putCache_loop ks dropped (i + 1) (js_delete fc (js_index_key ks i))
      else fc)"
  by pat_completeness auto
termination
  by (relation "measure (\<lambda>(ks, dropped, i, fc). dropped - i)") auto

declare putCache_loop.simps [simp del]

text \<open>
  \<^verbatim>\<open>
  const readStart = Date.now();
  this.cacheStats.readTimeMs += Date.now() - readStart;
  let dropped = 0;
  if (this.shouldFreeMemory()) {
    const keys = Object.keys(this.fileCache);
    dropped = Math.round(keys.length / 2);
    for (let i = 0; i < dropped; i++) { delete this.fileCache[keys[i]]; }
  }
  this.fileCache[filePath] = entry;
  \<close>
  \<open>shouldFreeMemory\<close> is the answer of \<^verbatim>\<open>this.shouldFreeMemory()\<close> at this call and
  \<open>elapsed\<close> the difference of the two clock readings.
\<close>

definition putCache :: "'v FileCache \<Rightarrow> string \<Rightarrow> 'v CacheEntry \<Rightarrow> bool \<Rightarrow> int \<Rightarrow> 'v FileCache" where
  "putCache s filePath entry shouldFreeMemory elapsed =
     (let s1 = s\<lparr> cacheStats :=
                   (cacheStats s)\<lparr> readTimeMs := readTimeMs (cacheStats s) + elapsed \<rparr> \<rparr>;
          fc = (if shouldFreeMemory
                then (let ks = js_keys (fileCache s1);
                          dropped = math_round_half (length ks)
                      in putCache_loop ks dropped 0 (fileCache s1))
                else fileCache s1)
      in s1\<lparr> fileCache := js_set fc filePath entry \<rparr>)"

subsection \<open>\<^verbatim>\<open>inCache\<close> and \<^verbatim>\<open>resetStats\<close>\<close>


definition resetStats :: "'v FileCache \<Rightarrow> 'v FileCache" where
  "resetStats s = s\<lparr> cacheStats := \<lparr> hits = 0, reads = 0, readTimeMs = 0 \<rparr> \<rparr>"

section \<open>The loaders\<close>

subsection \<open>\<^verbatim>\<open>isNonHermeticInput\<close>\<close>

text \<open>
  \<^verbatim>\<open>String.prototype.split\<close> with a separator of one character: the pieces between the
  separators, empty pieces included; the empty string splits into one empty piece.
\<close>

fun js_split :: "string \<Rightarrow> char \<Rightarrow> string list" where
  "js_split [] sep = [[]]"
| "js_split (c # cs) sep =
     (if c = sep then [] # js_split cs sep
      else (case js_split cs sep of
              [] \<Rightarrow> [[c]]
            | piece # pieces \<Rightarrow> (c # piece) # pieces))"

text \<open>
  \<^verbatim>\<open>return filePath.split(path.sep).indexOf('node_modules') !== -1;\<close>
  \<^verbatim>\<open>path.sep\<close> is the separator of the platform, a parameter here.
\<close>

definition isNonHermeticInput :: "char \<Rightarrow> string \<Rightarrow> bool" where
  "isNonHermeticInput path_sep filePath = (''node_modules'' \<in> set (js_split filePath path_sep))"

subsection \<open>\<^verbatim>\<open>CachedFileLoader.loadFile\<close> and \<^verbatim>\<open>UncachedFileLoader.loadFile\<close>\<close>

text \<open>
  What the loaders call outside this file: \<^verbatim>\<open>fs.readFileSync\<close>, which returns the text
  or throws, \<^verbatim>\<open>ts.createSourceFile\<close>, \<^verbatim>\<open>path.sep\<close>, and, through \<open>putCache\<close>, the
  memory predicate and the clock.
\<close>

record ('sf, 'lv) Host =
  path_sep :: char
  readFileSync :: "string \<Rightarrow> error + string"
  createSourceFile :: "string \<Rightarrow> string \<Rightarrow> 'lv \<Rightarrow> 'sf"
  shouldFreeMemory :: bool
  elapsedMs :: int

text \<open>
  \<^verbatim>\<open>
  let sourceFile = this.cache.getCache(filePath);
  if (!sourceFile) {
    const sourceText = fs.readFileSync(filePath, 'utf8');
    sourceFile = ts.createSourceFile(fileName, sourceText, langVer, true);
    if (this.allowNonHermeticReads && !this.cache.isKnownInput(filePath) &&
        isNonHermeticInput(filePath)) { return sourceFile; }
    const entry = { digest: this.cache.getLastDigest(filePath), value: sourceFile };
    this.cache.putCache(filePath, entry);
  }
  return sourceFile;
  \<close>
  A \<^verbatim>\<open>ts.SourceFile\<close> is an object and so truthy: \<^verbatim>\<open>!sourceFile\<close> holds exactly on a
  miss. A thrown error leaves the cache as it was when it was thrown.
\<close>

definition loadFile :: "bool \<Rightarrow> ('sf, 'lv) Host \<Rightarrow> 'sf FileCache \<Rightarrow> string \<Rightarrow> string \<Rightarrow> 'lv
    \<Rightarrow> (error + 'sf) \<times> 'sf FileCache" where
  "loadFile allowNonHermeticReads host s fileName filePath langVer =
     (case getCache s filePath of
        (Some sourceFile, s1) \<Rightarrow> (Inr sourceFile, s1)
      | (None, s1) \<Rightarrow>
          (case readFileSync host filePath of
             Inl e \<Rightarrow> (Inl e, s1)
           | Inr sourceText \<Rightarrow>
               (let sourceFile = createSourceFile host fileName sourceText langVer in
                if allowNonHermeticReads \<and> \<not> isKnownInput s1 filePath \<and>
                   isNonHermeticInput (path_sep host) filePath
                then (Inr sourceFile, s1)
                else (case getLastDigest s1 filePath of
                        Inl e \<Rightarrow> (Inl e, s1)
                      | Inr d \<Rightarrow>
                          (Inr sourceFile,
                           putCache s1 filePath \<lparr> digest = d, value' = sourceFile \<rparr>
                             (shouldFreeMemory host) (elapsedMs host))))))"

definition uncached_loadFile :: "('sf, 'lv) Host \<Rightarrow> string \<Rightarrow> string \<Rightarrow> 'lv \<Rightarrow> error + 'sf" where
  "uncached_loadFile host fileName filePath langVer =
     (case readFileSync host filePath of
        Inl e \<Rightarrow> Inl e
      | Inr sourceText \<Rightarrow> Inr (createSourceFile host fileName sourceText langVer))"

section \<open>Sequences of cache operations\<close>

datatype 'v cache_op =
    GetCache string
  | PutCache string "'v CacheEntry" bool int
  | UpdateCache "string js_object"

fun step :: "'v FileCache \<Rightarrow> 'v cache_op \<Rightarrow> 'v FileCache" where
  "step s (GetCache filePath) = snd (getCache s filePath)"
| "step s (PutCache filePath entry free elapsed) = putCache s filePath entry free elapsed"
| "step s (UpdateCache digests) = updateCache s digests"

definition run :: "'v FileCache \<Rightarrow> 'v cache_op list \<Rightarrow> 'v FileCache" where
  "run s ops = foldl step s ops"



text \<open>
  An identity goes directly from one digest to another between two states: it has an
  entry in both, and the digests differ.
\<close>

definition direct_digest_change :: "'v FileCache \<Rightarrow> 'v FileCache \<Rightarrow> string \<Rightarrow> bool" where
  "direct_digest_change s s' k =
     (case js_get (fileCache s) k of
        None \<Rightarrow> False
      | Some e \<Rightarrow>
          (case js_get (fileCache s') k of
             None \<Rightarrow> False
           | Some e' \<Rightarrow> digest e \<noteq> digest e'))"

section \<open>Properties of the key order\<close>

lemma digit_char_digit_of: "digit_of c = Some d \<Longrightarrow> digit_char d = c \<and> d < 10"
  by (auto simp: digit_of_def digit_char_def split: if_splits)

lemma decimal_snoc:
  "decimal (cs @ [c]) acc =
     (case decimal cs acc of
        None \<Rightarrow> None
      | Some m \<Rightarrow> (case digit_of c of None \<Rightarrow> None | Some d \<Rightarrow> Some (10 * m + d)))"
  by (induction cs arbitrary: acc) (auto split: option.splits)

lemma decimal_ge: "decimal cs acc = Some n \<Longrightarrow> acc \<le> n"
proof (induction cs arbitrary: acc)
  case Nil
  then show ?case by simp
next
  case (Cons c cs)
  then obtain d where "digit_of c = Some d" and "decimal cs (10 * acc + d) = Some n"
    by (auto split: option.splits)
  from Cons.IH [OF this(2)] show ?case by simp
qed

lemma decimal_positive:
  assumes "decimal (c # cs) 0 = Some n" and "c \<noteq> CHR ''0''"
  shows "0 < n"
proof -
  from assms(1) obtain d where d: "digit_of c = Some d" and rest: "decimal cs d = Some n"
    by (auto split: option.splits)
  from d assms(2) have "0 < d" by (auto simp: digit_of_def split: if_splits)
  with decimal_ge [OF rest] show ?thesis by simp
qed

lemma numeral_of_small: "n < 10 \<Longrightarrow> numeral_of n = [digit_char n]"
  by (simp add: numeral_of.simps [of n])

lemma numeral_of_large:
  "\<not> n < 10 \<Longrightarrow> numeral_of n = numeral_of (n div 10) @ [digit_char (n mod 10)]"
  by (simp add: numeral_of.simps [of n])

lemma decimal_numeral_of:
  assumes "decimal k 0 = Some n" and "k \<noteq> []" and "hd k = CHR ''0'' \<longrightarrow> tl k = []"
  shows "k = numeral_of n"
  using assms
proof (induction k arbitrary: n rule: rev_induct)
  case Nil
  then show ?case by simp
next
  case (snoc c ks)
  from snoc.prems(1) obtain m d where m: "decimal ks 0 = Some m" and d: "digit_of c = Some d"
    and n: "n = 10 * m + d"
    by (auto simp: decimal_snoc split: option.splits)
  from digit_char_digit_of [OF d] have c: "digit_char d = c" and d10: "d < 10" by simp_all
  show ?case
  proof (cases ks)
    case Nil
    with m have "m = 0" by simp
    with n d10 have "n < 10" and "n = d" by simp_all
    with c Nil show ?thesis by (simp add: numeral_of_small)
  next
    case (Cons c' cs')
    with snoc.prems(3) have nz: "c' \<noteq> CHR ''0''" by auto
    have "0 < m" by (rule decimal_positive [OF m [unfolded Cons] nz])
    have canon: "hd ks = CHR ''0'' \<longrightarrow> tl ks = []" using nz Cons by simp
    have "ks \<noteq> []" using Cons by simp
    from snoc.IH [OF m this canon] have ks: "ks = numeral_of m" .
    have "n div 10 = m" and "n mod 10 = d" and "\<not> n < 10"
      using n d10 \<open>0 < m\<close> by simp_all
    then have "numeral_of n = numeral_of m @ [digit_char d]"
      by (simp add: numeral_of_large)
    with ks c show ?thesis by simp
  qed
qed

lemma array_index_value_numeral_of:
  assumes "array_index_value k = Some n"
  shows "k = numeral_of n"
proof -
  from assms obtain c cs where k: "k = c # cs" and canon: "\<not> (c = CHR ''0'' \<and> cs \<noteq> [])"
    and dec: "decimal k 0 = Some n"
    by (auto simp: array_index_value_def split: list.splits if_splits option.splits)
  have "k \<noteq> []" using k by simp
  moreover have "hd k = CHR ''0'' \<longrightarrow> tl k = []" using k canon by simp
  ultimately show ?thesis using dec by (intro decimal_numeral_of)
qed

lemma array_index_value_inj:
  "array_index_value a = Some n \<Longrightarrow> array_index_value b = Some n \<Longrightarrow> a = b"
proof -
  assume a: "array_index_value a = Some n" and b: "array_index_value b = Some n"
  have "a = numeral_of n" using a by (rule array_index_value_numeral_of)
  moreover have "b = numeral_of n" using b by (rule array_index_value_numeral_of)
  ultimately show "a = b" by simp
qed

lemma key_order_irrefl: "array_index k \<Longrightarrow> \<not> key_order k k"
  by (auto simp: key_order_def array_index_def split: option.splits)

lemma key_order_not_index: "\<not> array_index k \<Longrightarrow> key_order a k"
  by (simp add: key_order_def array_index_def)

lemma key_order_trans: "key_order a b \<Longrightarrow> key_order b c \<Longrightarrow> key_order a c"
  by (auto simp: key_order_def split: option.splits)

lemma key_order_total: "\<not> key_order a k \<Longrightarrow> a \<noteq> k \<Longrightarrow> key_order k a"
proof -
  assume no: "\<not> key_order a k" and ne: "a \<noteq> k"
  from no obtain nk where nk: "array_index_value k = Some nk"
    by (auto simp: key_order_def split: option.splits)
  show "key_order k a"
  proof (cases "array_index_value a")
    case None
    then show ?thesis by (simp add: key_order_def)
  next
    case (Some na)
    with no nk have "nk \<le> na" by (simp add: key_order_def)
    moreover have "nk \<noteq> na" using array_index_value_inj [of a na k] Some nk ne by auto
    ultimately show ?thesis using Some nk by (simp add: key_order_def)
  qed
qed

section \<open>Properties of the object operations\<close>

lemma in_keysI: "(a, b) \<in> set obj \<Longrightarrow> a \<in> fst ` set obj"
  by force

lemma js_get_delete: "js_get (js_delete obj k) k' = (if k' = k then None else js_get obj k')"
  by (induction obj) (auto simp: js_get_def)

lemma js_delete_filter: "js_delete obj k = filter (\<lambda>p. fst p \<noteq> k) obj"
  by (induction obj) auto

lemma js_get_None_iff: "js_get obj k = None \<longleftrightarrow> k \<notin> set (js_keys obj)"
  by (simp add: js_get_def js_keys_def map_of_eq_None_iff)

lemma js_get_replace:
  "js_get (js_replace obj k v) k' =
     (if k' = k \<and> k \<in> set (js_keys obj) then Some v else js_get obj k')"
  by (induction obj) (auto simp: js_get_def js_keys_def dest: in_keysI)

lemma js_get_insert_index:
  "k \<notin> set (js_keys obj) \<Longrightarrow>
   js_get (js_insert_index obj k v) k' = (if k' = k then Some v else js_get obj k')"
  by (induction obj) (auto simp: js_get_def js_keys_def)

lemma js_get_append:
  "k \<notin> set (js_keys obj) \<Longrightarrow>
   js_get (obj @ [(k, v)]) k' = (if k' = k then Some v else js_get obj k')"
  by (induction obj) (auto simp: js_get_def js_keys_def)

lemma js_get_set: "js_get (js_set obj k v) k' = (if k' = k then Some v else js_get obj k')"
  by (simp add: js_set_def js_get_replace js_get_insert_index js_get_append)



lemma js_keys_delete: "js_keys (js_delete obj k) = filter (\<lambda>x. x \<noteq> k) (js_keys obj)"
  by (induction obj) (auto simp: js_keys_def)

lemma js_keys_replace: "js_keys (js_replace obj k v) = js_keys obj"
  by (induction obj) (auto simp: js_keys_def)

lemma js_keys_insert_index: "set (js_keys (js_insert_index obj k v)) = insert k (set (js_keys obj))"
proof (induction obj)
  case Nil
  then show ?case by (simp add: js_keys_def)
next
  case (Cons p obj)
  obtain k' v' where p: "p = (k', v')" by (cases p)
  from Cons.IH have ih: "fst ` set (js_insert_index obj k v) = insert k (fst ` set obj)"
    by (simp add: js_keys_def)
  show ?case
    by (cases "key_order k' k") (auto simp: p js_keys_def ih)
qed

lemma js_keys_set_list:
  "\<not> array_index k \<Longrightarrow>
   js_keys (js_set obj k v) = (if k \<in> set (js_keys obj) then js_keys obj else js_keys obj @ [k])"
  by (simp add: js_set_def js_keys_replace) (simp add: js_keys_def)





subsection \<open>Well-formed objects\<close>

lemma js_wf_filter: "js_wf obj \<Longrightarrow> js_wf (filter P obj)"
proof -
  assume wf: "js_wf obj"
  have keys: "js_keys (filter P obj) = map fst (filter P obj)" by (simp add: js_keys_def)
  have "distinct (map fst (filter P obj))"
    using wf by (simp add: js_wf_def js_keys_def distinct_map_filter)
  moreover have "sorted_wrt key_order (map fst (filter P obj))"
  proof -
    from wf have "sorted_wrt (\<lambda>p q. key_order (fst p) (fst q)) obj"
      by (simp add: js_wf_def js_keys_def sorted_wrt_map)
    then have "sorted_wrt (\<lambda>p q. key_order (fst p) (fst q)) (filter P obj)"
      by (rule sorted_wrt_filter)
    then show ?thesis by (simp add: sorted_wrt_map)
  qed
  ultimately show ?thesis by (simp add: js_wf_def keys)
qed

lemma js_wf_delete: "js_wf obj \<Longrightarrow> js_wf (js_delete obj k)"
  by (simp add: js_delete_filter js_wf_filter)

lemma js_wf_replace: "js_wf obj \<Longrightarrow> js_wf (js_replace obj k v)"
  by (simp add: js_wf_def js_keys_replace)

lemma js_wf_append:
  assumes "js_wf obj" and "k \<notin> set (js_keys obj)" and "\<not> array_index k"
  shows "js_wf (obj @ [(k, v)])"
  using assms by (simp add: js_wf_def js_keys_def sorted_wrt_append key_order_not_index)

lemma js_wf_insert_index:
  assumes "js_wf obj" and "k \<notin> set (js_keys obj)"
  shows "js_wf (js_insert_index obj k v)"
  using assms
proof (induction obj)
  case Nil
  then show ?case by (simp add: js_wf_def js_keys_def)
next
  case (Cons p obj)
  obtain k' v' where p: "p = (k', v')" by (cases p)
  from Cons.prems have wf: "js_wf obj" and notin: "k \<notin> set (js_keys obj)" and ne: "k' \<noteq> k"
    and k'_notin: "k' \<notin> set (js_keys obj)"
    and before: "\<forall>x\<in>set (js_keys obj). key_order k' x"
    by (auto simp: js_wf_def js_keys_def p)
  show ?case
  proof (cases "key_order k' k")
    case True
    have ih: "js_wf (js_insert_index obj k v)" using Cons.IH [OF wf notin] .
    have "\<forall>x\<in>set (js_keys (js_insert_index obj k v)). key_order k' x"
      using before True by (simp add: js_keys_insert_index)
    moreover have "k' \<notin> set (js_keys (js_insert_index obj k v))"
      using k'_notin ne by (simp add: js_keys_insert_index)
    ultimately show ?thesis
      using ih True by (simp add: p js_wf_def js_keys_def)
  next
    case False
    from key_order_total [OF False ne] have kk': "key_order k k'" .
    have "\<forall>x\<in>set (js_keys obj). key_order k x"
    proof
      fix x assume "x \<in> set (js_keys obj)"
      with before have "key_order k' x" by blast
      with kk' show "key_order k x" by (rule key_order_trans)
    qed
    then show ?thesis
      using False kk' Cons.prems ne by (simp add: p js_wf_def js_keys_def)
  qed
qed

lemma js_wf_set: "js_wf obj \<Longrightarrow> js_wf (js_set obj k v)"
  by (simp add: js_set_def js_wf_replace js_wf_insert_index js_wf_append)

text \<open>Deleting an array index and assigning it again puts it back where it was.\<close>

lemma js_insert_index_back:
  assumes "js_wf obj" and "array_index k" and "js_get obj k = Some v"
  shows "js_insert_index (js_delete obj k) k v = obj"
  using assms
proof (induction obj)
  case Nil
  then show ?case by (simp add: js_get_def)
next
  case (Cons p obj)
  obtain k' v' where p: "p = (k', v')" by (cases p)
  from Cons.prems(1) have wf: "js_wf obj" and k'_notin: "k' \<notin> set (js_keys obj)"
    and before: "\<forall>x\<in>set (js_keys obj). key_order k' x"
    by (auto simp: js_wf_def js_keys_def p)
  show ?case
  proof (cases "k' = k")
    case True
    with Cons.prems(3) have v: "v' = v" by (simp add: p js_get_def)
    have "\<forall>q\<in>set obj. fst q \<noteq> k"
      using k'_notin True by (auto simp: js_keys_def)
    then have del: "js_delete obj k = obj"
      by (simp add: js_delete_filter)
    have "js_insert_index obj k v = (k, v) # obj"
    proof (cases obj)
      case Nil
      then show ?thesis by simp
    next
      case (Cons q obj')
      obtain k'' v'' where q: "q = (k'', v'')" by (cases q)
      from before Cons q True have "key_order k k''" by (simp add: js_keys_def)
      then have "\<not> key_order k'' k"
        using key_order_trans [of k k'' k] key_order_irrefl [OF assms(2)] by blast
      then show ?thesis by (simp add: Cons q)
    qed
    then show ?thesis by (simp add: p True v del)
  next
    case False
    with Cons.prems(3) have got: "js_get obj k = Some v" by (simp add: p js_get_def)
    then have "k \<in> set (js_keys obj)" using js_get_None_iff [of obj k] by auto
    with before have "key_order k' k" by blast
    with False Cons.IH [OF wf assms(2) got] show ?thesis by (simp add: p)
  qed
qed

lemma js_set_delete_index:
  assumes "js_wf obj" and "array_index k" and "js_get obj k = Some v"
  shows "js_set (js_delete obj k) k v = obj"
proof -
  have "k \<notin> set (js_keys (js_delete obj k))" by (simp add: js_keys_delete)
  then show ?thesis
    using assms by (simp add: js_set_def js_insert_index_back)
qed

section \<open>Properties of the loops\<close>

subsection \<open>The invalidation loop of \<^verbatim>\<open>updateCache\<close>\<close>

lemma updateCache_loop_get:
  "js_get (updateCache_loop digests fps fc) k =
     (case js_get fc k of
        None \<Rightarrow> None
      | Some e \<Rightarrow> (if k \<in> set fps \<and> Some (digest e) \<noteq> js_get digests k then None else Some e))"
proof (induction fps arbitrary: fc)
  case Nil
  then show ?case by (simp split: option.splits)
next
  case (Cons fp fps)
  show ?case
  proof (cases "js_get fc fp")
    case None
    then show ?thesis by (auto simp: Cons.IH split: option.splits)
  next
    case (Some entry)
    then show ?thesis by (auto simp: Cons.IH js_get_delete split: option.splits)
  qed
qed

lemma updateCache_loop_frame:
  "filter (\<lambda>p. fst p \<notin> set fps) (updateCache_loop digests fps fc) =
   filter (\<lambda>p. fst p \<notin> set fps) fc"
proof (induction fps arbitrary: fc)
  case Nil
  then show ?case by simp
next
  case (Cons fp fps)
  let ?fc1 = "(case js_get fc fp of None \<Rightarrow> fc
        | Some entry \<Rightarrow> (if Some (digest entry) \<noteq> js_get digests fp then js_delete fc fp else fc))"
  have split: "\<And>xs::(string \<times> 'a CacheEntry) list. filter (\<lambda>p. fst p \<notin> set (fp # fps)) xs =
        filter (\<lambda>p. fst p \<noteq> fp) (filter (\<lambda>p. fst p \<notin> set fps) xs)"
    by (auto intro: filter_cong)
  have one: "filter (\<lambda>p. fst p \<noteq> fp) ?fc1 = filter (\<lambda>p. fst p \<noteq> fp) fc"
    by (simp add: js_delete_filter split: option.splits)
  have "filter (\<lambda>p. fst p \<notin> set (fp # fps)) (updateCache_loop digests (fp # fps) fc) =
        filter (\<lambda>p. fst p \<noteq> fp) (filter (\<lambda>p. fst p \<notin> set fps) ?fc1)"
    by (simp only: split updateCache_loop.simps Cons.IH)
  also have "\<dots> = filter (\<lambda>p. fst p \<notin> set fps) (filter (\<lambda>p. fst p \<noteq> fp) ?fc1)"
    by (simp add: conj_commute)
  also have "\<dots> = filter (\<lambda>p. fst p \<notin> set fps) (filter (\<lambda>p. fst p \<noteq> fp) fc)"
    by (simp only: one)
  also have "\<dots> = filter (\<lambda>p. fst p \<notin> set (fp # fps)) fc"
    by (auto intro: filter_cong)
  finally show ?case .
qed

lemma updateCache_loop_wf: "js_wf fc \<Longrightarrow> js_wf (updateCache_loop digests fps fc)"
proof (induction fps arbitrary: fc)
  case Nil
  then show ?case by simp
next
  case (Cons fp fps)
  have "js_wf (case js_get fc fp of None \<Rightarrow> fc
        | Some entry \<Rightarrow> (if Some (digest entry) \<noteq> js_get digests fp then js_delete fc fp else fc))"
    using Cons.prems by (simp add: js_wf_delete split: option.splits)
  then show ?case by (simp add: Cons.IH)
qed

subsection \<open>The eviction loop of \<^verbatim>\<open>putCache\<close>\<close>

lemma putCache_loop_filter:
  "putCache_loop ks dropped i fc =
     filter (\<lambda>p. fst p \<notin> js_index_key ks ` {i..<dropped}) fc"
proof (induction ks dropped i fc rule: putCache_loop.induct)
  case (1 ks dropped i fc)
  show ?case
  proof (cases "i < dropped")
    case True
    have range: "{i..<dropped} = insert i {i + 1..<dropped}"
      using True by auto
    have "putCache_loop ks dropped i fc =
        putCache_loop ks dropped (i + 1) (js_delete fc (js_index_key ks i))"
      using True by (simp add: putCache_loop.simps [of ks dropped i fc])
    also have "\<dots> = filter (\<lambda>p. fst p \<notin> js_index_key ks ` {i + 1..<dropped})
        (js_delete fc (js_index_key ks i))"
      using "1.IH" True by simp
    also have "\<dots> = filter (\<lambda>p. fst p \<notin> js_index_key ks ` {i..<dropped}) fc"
      unfolding range js_delete_filter by (auto intro: filter_cong)
    finally show ?thesis .
  next
    case False
    then show ?thesis by (simp add: putCache_loop.simps [of ks dropped i fc])
  qed
qed





lemma putCache_loop_get:
  "js_get (putCache_loop ks dropped i fc) k = None \<or>
   js_get (putCache_loop ks dropped i fc) k = js_get fc k"
proof (induction ks dropped i fc rule: putCache_loop.induct)
  case (1 ks dropped i fc)
  show ?case
  proof (cases "i < dropped")
    case True
    then have eq: "putCache_loop ks dropped i fc =
        putCache_loop ks dropped (i + 1) (js_delete fc (js_index_key ks i))"
      by (simp add: putCache_loop.simps [of ks dropped i fc])
    from "1.IH" [OF True] show ?thesis
      unfolding eq by (auto simp: js_get_delete split: if_splits)
  next
    case False
    then show ?thesis by (simp add: putCache_loop.simps [of ks dropped i fc])
  qed
qed

section \<open>What one operation does to an identity\<close>

lemma getCache_miss_iff: "fst (getCache s filePath) = None \<longleftrightarrow> js_get (fileCache s) filePath = None"
  by (cases "js_get (fileCache s) filePath") (simp_all add: getCache_def)

lemma getCache_miss_state:
  "js_get (fileCache s) filePath = None \<Longrightarrow>
   getCache s filePath =
     (None, s\<lparr> cacheStats := (cacheStats s)\<lparr> reads := reads (cacheStats s) + 1 \<rparr> \<rparr>)"
  by (simp add: getCache_def)

lemma getCache_hit_state:
  "js_get (fileCache s) filePath = Some entry \<Longrightarrow>
   getCache s filePath =
     (Some (value' entry),
      s\<lparr> cacheStats := (cacheStats s)\<lparr> reads := reads (cacheStats s) + 1,
                                       hits := hits (cacheStats s) + 1 \<rparr>,
         fileCache := js_set (js_delete (fileCache s) filePath) filePath entry \<rparr>)"
  by (simp add: getCache_def)

lemma getCache_get_other:
  "js_get (fileCache (snd (getCache s filePath))) k = js_get (fileCache s) k"
  by (cases "js_get (fileCache s) filePath")
     (auto simp: getCache_def js_get_set js_get_delete)

lemma putCache_get:
  "js_get (fileCache (putCache s filePath entry free elapsed)) k =
     (if k = filePath then Some entry
      else js_get (if free
                   then putCache_loop (js_keys (fileCache s))
                          (math_round_half (length (js_keys (fileCache s)))) 0 (fileCache s)
                   else fileCache s) k)"
  by (simp add: putCache_def Let_def js_get_set)

lemma putCache_get_other:
  assumes "k \<noteq> filePath"
  shows "js_get (fileCache (putCache s filePath entry free elapsed)) k = None \<or>
         js_get (fileCache (putCache s filePath entry free elapsed)) k = js_get (fileCache s) k"
  using assms putCache_loop_get [of "js_keys (fileCache s)"
      "math_round_half (length (js_keys (fileCache s)))" 0 "fileCache s" k]
  by (auto simp: putCache_get)

lemma updateCache_get_other:
  "js_get (fileCache (updateCache s digests)) k = None \<or>
   js_get (fileCache (updateCache s digests)) k = js_get (fileCache s) k"
  by (simp add: updateCache_def updateCache_loop_get split: option.splits)




lemma loadFile_hit_state:
  assumes "js_get (fileCache s) filePath = Some entry"
  shows "loadFile allow host s fileName filePath langVer =
           (Inr (value' entry), snd (getCache s filePath))"
  by (simp add: loadFile_def getCache_hit_state [OF assms])

lemma loadFile_miss_state:
  assumes "js_get (fileCache s) filePath = None"
  defines "s1 \<equiv> s\<lparr> cacheStats := (cacheStats s)\<lparr> reads := reads (cacheStats s) + 1 \<rparr> \<rparr>"
  shows "snd (loadFile allow host s fileName filePath langVer) = s1 \<or>
         (\<exists>entry. snd (loadFile allow host s fileName filePath langVer) =
            putCache s1 filePath entry (shouldFreeMemory host) (elapsedMs host))"
proof -
  have g: "getCache s filePath = (None, s1)"
    unfolding s1_def using assms(1) by (rule getCache_miss_state)
  show ?thesis
  proof (cases "readFileSync host filePath")
    case (Inl e)
    then show ?thesis by (simp add: loadFile_def g)
  next
    case (Inr sourceText)
    show ?thesis
    proof (cases "allow \<and> \<not> isKnownInput s1 filePath \<and> isNonHermeticInput (path_sep host) filePath")
      case True
      then show ?thesis by (simp add: loadFile_def g Inr)
    next
      case False
      show ?thesis
      proof (cases "getLastDigest s1 filePath")
        case (Inl e)
        with False show ?thesis by (auto simp: loadFile_def g Inr Let_def)
      next
        case d: (Inr d)
        with False have "snd (loadFile allow host s fileName filePath langVer) =
            putCache s1 filePath \<lparr> digest = d,
                value' = createSourceFile host fileName sourceText langVer \<rparr>
              (shouldFreeMemory host) (elapsedMs host)"
          by (auto simp: loadFile_def g Inr Let_def)
        then show ?thesis by blast
      qed
    qed
  qed
qed

lemma loadFile_get_other:
  assumes "k \<noteq> filePath"
  shows "js_get (fileCache (snd (loadFile allow host s fileName filePath langVer))) k = None \<or>
         js_get (fileCache (snd (loadFile allow host s fileName filePath langVer))) k =
           js_get (fileCache s) k"
proof (cases "js_get (fileCache s) filePath")
  case None
  let ?s1 = "s\<lparr> cacheStats := (cacheStats s)\<lparr> reads := reads (cacheStats s) + 1 \<rparr> \<rparr>"
  have s1: "fileCache ?s1 = fileCache s" by simp
  from loadFile_miss_state [OF None, of allow host fileName langVer]
  show ?thesis
  proof (elim disjE exE)
    assume "snd (loadFile allow host s fileName filePath langVer) = ?s1"
    then show ?thesis by simp
  next
    fix entry
    assume "snd (loadFile allow host s fileName filePath langVer) =
            putCache ?s1 filePath entry (shouldFreeMemory host) (elapsedMs host)"
    then show ?thesis
      using putCache_get_other [OF assms, of ?s1 entry "shouldFreeMemory host" "elapsedMs host"]
      by (simp only: s1)
  qed
next
  case (Some entry)
  then show ?thesis by (simp add: loadFile_hit_state getCache_get_other)
qed

lemmas key_eval =
  array_index_def array_index_value_def digit_of_def key_order_def inherited_name_def
  plain_key_def



lemma direct_digest_change_iff:
  "direct_digest_change s s' k \<longleftrightarrow>
     (\<exists>e e'. js_get (fileCache s) k = Some e \<and> js_get (fileCache s') k = Some e' \<and>
        digest e \<noteq> digest e')"
  by (simp add: direct_digest_change_def split: option.splits)

lemma no_change_if_same_or_absent:
  "js_get (fileCache s') k = None \<or> js_get (fileCache s') k = js_get (fileCache s) k \<Longrightarrow>
   \<not> direct_digest_change s s' k"
  by (auto simp: direct_digest_change_iff)

section \<open>Every reachable cache is a well-formed object\<close>

lemma step_wf:
  assumes "js_wf (fileCache s)"
  shows "js_wf (fileCache (step s op))"
proof (cases op)
  case (GetCache filePath)
  show ?thesis
    using assms
    by (cases "js_get (fileCache s) filePath")
       (simp_all add: GetCache getCache_def js_wf_set js_wf_delete)
next
  case (PutCache filePath entry free elapsed)
  show ?thesis
    using assms
    by (simp add: PutCache putCache_def Let_def putCache_loop_filter js_wf_set js_wf_filter)
next
  case (UpdateCache digests)
  show ?thesis
    using assms by (simp add: UpdateCache updateCache_def updateCache_loop_wf)
qed



lemma loadFile_wf:
  assumes "js_wf (fileCache s)"
  shows "js_wf (fileCache (snd (loadFile allow host s fileName filePath langVer)))"
proof (cases "js_get (fileCache s) filePath")
  case None
  let ?s1 = "s\<lparr> cacheStats := (cacheStats s)\<lparr> reads := reads (cacheStats s) + 1 \<rparr> \<rparr>"
  from loadFile_miss_state [OF None, of allow host fileName langVer]
  show ?thesis
  proof (elim disjE exE)
    assume "snd (loadFile allow host s fileName filePath langVer) = ?s1"
    with assms show ?thesis by simp
  next
    fix entry
    assume put: "snd (loadFile allow host s fileName filePath langVer) =
            putCache ?s1 filePath entry (shouldFreeMemory host) (elapsedMs host)"
    have "js_wf (fileCache (step ?s1
        (PutCache filePath entry (shouldFreeMemory host) (elapsedMs host))))"
      using assms by (intro step_wf) simp
    with put show ?thesis by simp
  qed
next
  case (Some entry)
  have "js_wf (fileCache (step s (GetCache filePath)))"
    using assms by (rule step_wf)
  then show ?thesis by (simp add: loadFile_hit_state [OF Some])
qed

section \<open>The digest ledger and invalidation\<close>



text \<open>
  C9. An identity that is not a key of the new mapping keeps its entry, digest and value,
  through \<open>updateCache\<close>, and the entries of such identities keep their order.
\<close>

theorem updateCache_frame:
  assumes "k \<notin> set (js_keys digests)"
  shows "js_get (fileCache (updateCache s digests)) k = js_get (fileCache s) k \<and>
         filter (\<lambda>p. fst p \<notin> set (js_keys digests)) (fileCache (updateCache s digests)) =
         filter (\<lambda>p. fst p \<notin> set (js_keys digests)) (fileCache s)"
  using assms
  by (simp add: updateCache_def updateCache_loop_get updateCache_loop_frame split: option.splits)

theorem updateCache_frame_witness:
  "js_get (fileCache (updateCache
       \<lparr> fileCache = [(''a.ts'', \<lparr> digest = ''d1'', value' = (1::nat) \<rparr>),
                      (''lib.d.ts'', \<lparr> digest = ''d0'', value' = 2 \<rparr>)],
         lastDigests = [], cacheStats = \<lparr> hits = 0, reads = 0, readTimeMs = 0 \<rparr> \<rparr>
       [(''a.ts'', ''d2'')])) ''lib.d.ts'' = Some \<lparr> digest = ''d0'', value' = 2 \<rparr>"
proof -
  let ?s = "\<lparr> fileCache = [(''a.ts'', \<lparr> digest = ''d1'', value' = (1::nat) \<rparr>),
                      (''lib.d.ts'', \<lparr> digest = ''d0'', value' = 2 \<rparr>)],
         lastDigests = [], cacheStats = \<lparr> hits = 0, reads = 0, readTimeMs = 0 \<rparr> \<rparr>"
  have "''lib.d.ts'' \<notin> set (js_keys [(''a.ts'', ''d2'')])" by (simp add: js_keys_def)
  from updateCache_frame [OF this, of ?s] show ?thesis by (simp add: js_get_def)
qed

text \<open>
  An identity recorded with the empty digest: the ledger has an entry for it, and
  \<open>isKnownInput\<close> answers false.
\<close>

theorem isKnownInput_empty_digest_counterexample:
  "js_get (lastDigests (updateCache (newFileCache :: unit FileCache) [(''a.ts'', '''')])) ''a.ts''
     = Some '''' \<and>
   \<not> isKnownInput (updateCache (newFileCache :: unit FileCache) [(''a.ts'', '''')]) ''a.ts''"
  by (simp add: isKnownInput_def truthy_string_def updateCache_def js_get_def)

text \<open>
  C4, as the code has it. \<open>isKnownInput\<close> tests \<^verbatim>\<open>this.lastDigests[filePath]\<close> for
  truthiness. For an identity that is not a name inherited from \<^verbatim>\<open>Object.prototype\<close>
  it answers true exactly when the ledger records a non-empty digest for the identity;
  the contents of the cache store play no role.
\<close>

theorem isKnownInput_iff_nonempty_digest:
  assumes "\<not> inherited_name filePath"
  shows "isKnownInput (s\<lparr> fileCache := fc \<rparr>) filePath \<longleftrightarrow>
           (\<exists>d. js_get (lastDigests s) filePath = Some d \<and> d \<noteq> [])"
  by (simp add: isKnownInput_def truthy_string_def split: option.splits)

theorem isKnownInput_iff_nonempty_digest_witness:
  "isKnownInput ((updateCache (newFileCache :: unit FileCache) [(''a.ts'', ''d1'')])
       \<lparr> fileCache := [(''b.ts'', \<lparr> digest = ''d0'', value' = () \<rparr>)] \<rparr>) ''a.ts'' \<and>
   \<not> isKnownInput ((updateCache (newFileCache :: unit FileCache) [(''a.ts'', ''d1'')])
       \<lparr> fileCache := [(''b.ts'', \<lparr> digest = ''d0'', value' = () \<rparr>)] \<rparr>) ''b.ts''"
proof -
  let ?s = "updateCache (newFileCache :: unit FileCache) [(''a.ts'', ''d1'')]"
  let ?fc = "[(''b.ts'', \<lparr> digest = ''d0'', value' = () \<rparr>)]"
  have a: "\<not> inherited_name ''a.ts''" and b: "\<not> inherited_name ''b.ts''"
    by (simp_all add: inherited_name_def)
  have la: "js_get (lastDigests ?s) ''a.ts'' = Some ''d1''"
    and lb: "js_get (lastDigests ?s) ''b.ts'' = None"
    by (simp_all add: updateCache_def js_get_def)
  from isKnownInput_iff_nonempty_digest [OF a, where s = ?s and fc = ?fc] la
  have 1: "isKnownInput (?s\<lparr> fileCache := ?fc \<rparr>) ''a.ts''" by simp
  from isKnownInput_iff_nonempty_digest [OF b, where s = ?s and fc = ?fc] lb
  have 2: "\<not> isKnownInput (?s\<lparr> fileCache := ?fc \<rparr>) ''b.ts''" by simp
  from 1 2 show ?thesis by (rule conjI)
qed

text \<open>
  An identity recorded with the empty digest: the digest is on record, and
  \<open>getLastDigest\<close> throws. The message lists the identity among the keys it has.
\<close>

theorem getLastDigest_empty_digest_counterexample:
  "js_get (lastDigests (updateCache (newFileCache :: unit FileCache) [(''a.ts'', '''')])) ''a.ts''
     = Some '''' \<and>
   getLastDigest (updateCache (newFileCache :: unit FileCache) [(''a.ts'', '''')]) ''a.ts''
     = Inl (MissingDigest ''missing input digest for a.ts.(only have a.ts)'')"
  by (simp add: getLastDigest_def updateCache_def js_get_def js_keys_def
      missing_digest_message_def)

text \<open>
  C5, as the code has it. For an identity that is not a name inherited from
  \<^verbatim>\<open>Object.prototype\<close>, \<open>getLastDigest\<close> returns the recorded digest when it is not
  empty, and throws exactly when no digest is recorded or the recorded digest is the
  empty string; nothing is returned by default, and the message of the error names
  the path.
\<close>

theorem getLastDigest_spec:
  assumes "\<not> inherited_name filePath"
  shows
  "(\<forall>d. js_get (lastDigests s) filePath = Some d \<and> d \<noteq> [] \<longrightarrow> getLastDigest s filePath = Inr d) \<and>
   ((\<exists>e. getLastDigest s filePath = Inl e) \<longleftrightarrow>
      (js_get (lastDigests s) filePath = None \<or> js_get (lastDigests s) filePath = Some [])) \<and>
   (\<forall>e. getLastDigest s filePath = Inl e \<longrightarrow>
      (\<exists>rest. e = MissingDigest (''missing input digest for '' @ filePath @ rest)))"
  by (auto simp: getLastDigest_def missing_digest_message_def split: option.splits)

theorem getLastDigest_spec_witness:
  "getLastDigest (updateCache (newFileCache :: unit FileCache) [(''a.ts'', ''d1'')]) ''a.ts''
     = Inr ''d1'' \<and>
   (\<exists>rest. getLastDigest (updateCache (newFileCache :: unit FileCache) [(''a.ts'', ''d1'')]) ''b.ts''
     = Inl (MissingDigest (''missing input digest for '' @ ''b.ts'' @ rest)))"
proof -
  let ?s = "updateCache (newFileCache :: unit FileCache) [(''a.ts'', ''d1'')]"
  have pa: "\<not> inherited_name ''a.ts''" and pb: "\<not> inherited_name ''b.ts''"
    by (simp_all add: inherited_name_def)
  have a: "js_get (lastDigests ?s) ''a.ts'' = Some ''d1''"
    by (simp add: updateCache_def js_get_def)
  have b: "js_get (lastDigests ?s) ''b.ts'' = None"
    by (simp add: updateCache_def js_get_def)
  from getLastDigest_spec [OF pa, of ?s] a
  have 1: "getLastDigest ?s ''a.ts'' = Inr ''d1''" by simp
  from getLastDigest_spec [OF pb, of ?s] b
  have 2: "\<exists>rest. getLastDigest ?s ''b.ts''
     = Inl (MissingDigest (''missing input digest for '' @ ''b.ts'' @ rest))"
    by blast
  from 1 2 show ?thesis by blast
qed

section \<open>The cache store\<close>

text \<open>
  C6. \<open>putCache\<close> of an entry under \<open>filePath\<close> with the memory predicate answering
  false, followed at once by \<open>getCache\<close> of \<open>filePath\<close>, returns the value of the entry.
\<close>

theorem putCache_getCache_roundtrip:
  "fst (getCache (putCache s filePath entry False elapsed) filePath) = Some (value' entry)"
  by (simp add: getCache_def putCache_def js_get_set Let_def)







section \<open>Eviction under memory pressure\<close>




section \<open>Digest changes of an entry\<close>

text \<open>
  \<open>putCache\<close> assigns unconditionally: on an identity that is present it replaces the
  entry in place, digest included. Two puts on one identity from the empty cache:
\<close>

theorem putCache_direct_digest_change_counterexample:
  "direct_digest_change
     (run (newFileCache :: unit FileCache)
        [PutCache ''a.ts'' \<lparr> digest = ''d1'', value' = () \<rparr> False 0])
     (step (run (newFileCache :: unit FileCache)
              [PutCache ''a.ts'' \<lparr> digest = ''d1'', value' = () \<rparr> False 0])
        (PutCache ''a.ts'' \<lparr> digest = ''d2'', value' = () \<rparr> False 0))
     ''a.ts''"
  by (simp add: direct_digest_change_def run_def newFileCache_def putCache_def js_get_def
      js_set_def js_keys_def key_eval)

text \<open>
  C3, as the code has it. A single step changes the digest of a present identity
  directly only when the step is a \<open>putCache\<close> on that same identity. \<open>getCache\<close>,
  \<open>updateCache\<close> and a \<open>putCache\<close> on another identity never do, and neither does
  \<open>loadFile\<close>, which puts only after a miss on the same identity.
\<close>

theorem digest_changes_only_by_putCache_on_same_identity:
  "(direct_digest_change s (step s op) k \<longrightarrow>
      (\<exists>entry free elapsed. op = PutCache k entry free elapsed \<and>
         js_get (fileCache (step s op)) k = Some entry)) \<and>
   \<not> direct_digest_change s (snd (loadFile allow host s fileName filePath langVer)) k"
proof (intro conjI impI)
  assume change: "direct_digest_change s (step s op) k"
  show "\<exists>entry free elapsed. op = PutCache k entry free elapsed \<and>
         js_get (fileCache (step s op)) k = Some entry"
  proof (cases op)
    case (GetCache fp)
    have "\<not> direct_digest_change s (step s op) k"
      by (rule no_change_if_same_or_absent) (simp add: GetCache getCache_get_other)
    with change show ?thesis by simp
  next
    case (PutCache fp entry free elapsed)
    show ?thesis
    proof (cases "k = fp")
      case True
      then show ?thesis by (simp add: PutCache putCache_get)
    next
      case False
      have "\<not> direct_digest_change s (step s op) k"
        using putCache_get_other [OF False, of s entry free elapsed]
        by (intro no_change_if_same_or_absent) (simp add: PutCache)
      with change show ?thesis by simp
    qed
  next
    case (UpdateCache digests)
    have "\<not> direct_digest_change s (step s op) k"
      using updateCache_get_other [of s digests k]
      by (intro no_change_if_same_or_absent) (simp add: UpdateCache)
    with change show ?thesis by simp
  qed
next
  show "\<not> direct_digest_change s (snd (loadFile allow host s fileName filePath langVer)) k"
  proof (cases "k = filePath")
    case False
    from loadFile_get_other [OF False] show ?thesis
      by (rule no_change_if_same_or_absent)
  next
    case True
    show ?thesis
    proof (cases "js_get (fileCache s) filePath")
      case None
      then show ?thesis by (simp add: direct_digest_change_def True)
    next
      case (Some entry)
      then show ?thesis
        by (intro no_change_if_same_or_absent) (simp add: loadFile_hit_state getCache_get_other)
    qed
  qed
qed

theorem digest_changes_only_by_putCache_on_same_identity_witness:
  "direct_digest_change
     \<lparr> fileCache = [(''a.ts'', \<lparr> digest = ''d1'', value' = () \<rparr>)],
       lastDigests = [], cacheStats = \<lparr> hits = 0, reads = 0, readTimeMs = 0 \<rparr> \<rparr>
     (step \<lparr> fileCache = [(''a.ts'', \<lparr> digest = ''d1'', value' = () \<rparr>)],
             lastDigests = [], cacheStats = \<lparr> hits = 0, reads = 0, readTimeMs = 0 \<rparr> \<rparr>
        (PutCache ''a.ts'' \<lparr> digest = ''d2'', value' = () \<rparr> False 0))
     ''a.ts'' \<and>
   (\<exists>entry free elapsed.
      PutCache ''a.ts'' \<lparr> digest = ''d2'', value' = () \<rparr> False 0 =
        PutCache ''a.ts'' entry free elapsed \<and>
      js_get (fileCache (step
          \<lparr> fileCache = [(''a.ts'', \<lparr> digest = ''d1'', value' = () \<rparr>)],
            lastDigests = [], cacheStats = \<lparr> hits = 0, reads = 0, readTimeMs = 0 \<rparr> \<rparr>
          (PutCache ''a.ts'' \<lparr> digest = ''d2'', value' = () \<rparr> False 0))) ''a.ts'' = Some entry)"
proof -
  let ?s = "\<lparr> fileCache = [(''a.ts'', \<lparr> digest = ''d1'', value' = () \<rparr>)],
        lastDigests = [], cacheStats = \<lparr> hits = 0, reads = 0, readTimeMs = 0 \<rparr> \<rparr>"
  let ?op = "PutCache ''a.ts'' \<lparr> digest = ''d2'', value' = () \<rparr> False 0"
  have change: "direct_digest_change ?s (step ?s ?op) ''a.ts''"
    by (simp add: direct_digest_change_def putCache_def js_get_def js_set_def js_keys_def)
  have "direct_digest_change ?s (step ?s ?op) ''a.ts'' \<longrightarrow>
      (\<exists>entry free elapsed. ?op = PutCache ''a.ts'' entry free elapsed \<and>
         js_get (fileCache (step ?s ?op)) ''a.ts'' = Some entry)"
    using digest_changes_only_by_putCache_on_same_identity
      [of ?s ?op "''a.ts''"]
    by (rule conjunct1)
  from this change have "\<exists>entry free elapsed. ?op = PutCache ''a.ts'' entry free elapsed \<and>
         js_get (fileCache (step ?s ?op)) ''a.ts'' = Some entry"
    by (rule mp)
  with change show ?thesis by (rule conjI)
qed

section \<open>The cached loader and non-hermetic inputs\<close>

text \<open>
  C8. Non-hermetic reads are allowed, the path is not a known input, and a segment of
  the path is \<^verbatim>\<open>node_modules\<close>. Then \<open>loadFile\<close> on a miss returns the file parsed
  afresh whenever the read succeeds (a failed read throws, as for every load), and in
  either case it leaves the cache store as it was: the path is not inserted, and a
  \<open>getCache\<close> of the path right after the load still misses.
\<close>

theorem loadFile_non_hermetic_not_cached:
  assumes "allowNonHermeticReads"
    and "\<not> isKnownInput s filePath"
    and "isNonHermeticInput (path_sep host) filePath"
    and "js_get (fileCache s) filePath = None"
  shows "(\<forall>sourceText. readFileSync host filePath = Inr sourceText \<longrightarrow>
            fst (loadFile allowNonHermeticReads host s fileName filePath langVer) =
              Inr (createSourceFile host fileName sourceText langVer)) \<and>
         fileCache (snd (loadFile allowNonHermeticReads host s fileName filePath langVer)) =
           fileCache s \<and>
         lastDigests (snd (loadFile allowNonHermeticReads host s fileName filePath langVer)) =
           lastDigests s \<and>
         fst (getCache (snd (loadFile allowNonHermeticReads host s fileName filePath langVer))
                filePath) = None"
proof -
  let ?s1 = "s\<lparr> cacheStats := (cacheStats s)\<lparr> reads := reads (cacheStats s) + 1 \<rparr> \<rparr>"
  have g: "getCache s filePath = (None, ?s1)"
    using assms(4) by (rule getCache_miss_state)
  have known: "\<not> isKnownInput ?s1 filePath"
    using assms(2) by (simp add: isKnownInput_def)
  have load: "loadFile allowNonHermeticReads host s fileName filePath langVer =
      (case readFileSync host filePath of
         Inl e \<Rightarrow> (Inl e, ?s1)
       | Inr sourceText \<Rightarrow> (Inr (createSourceFile host fileName sourceText langVer), ?s1))"
    using assms(1,3) known
    by (cases "readFileSync host filePath") (simp_all add: loadFile_def g)
  have state: "snd (loadFile allowNonHermeticReads host s fileName filePath langVer) = ?s1"
    by (cases "readFileSync host filePath") (simp_all add: load)
  have result: "\<forall>sourceText. readFileSync host filePath = Inr sourceText \<longrightarrow>
            fst (loadFile allowNonHermeticReads host s fileName filePath langVer) =
              Inr (createSourceFile host fileName sourceText langVer)"
    by (simp add: load)
  have miss: "fst (getCache ?s1 filePath) = None"
    using assms(4) by (simp add: getCache_miss_iff)
  show ?thesis
    unfolding state using result [unfolded state] miss
    by (simp add: load)
qed

theorem loadFile_non_hermetic_not_cached_witness:
  "fst (loadFile True
     \<lparr> path_sep = CHR ''/'', readFileSync = (\<lambda>p. Inr ''export {}''),
       createSourceFile = (\<lambda>fileName sourceText langVer. (fileName, sourceText)),
       shouldFreeMemory = False, elapsedMs = 0 \<rparr>
     \<lparr> fileCache = [(''a.ts'', \<lparr> digest = ''d1'', value' = (''a.ts'', ''let a'') \<rparr>)],
       lastDigests = [(''a.ts'', ''d1'')],
       cacheStats = \<lparr> hits = 0, reads = 0, readTimeMs = 0 \<rparr> \<rparr>
     ''x.d.ts'' ''node_modules/x.d.ts'' ()) = Inr (''x.d.ts'', ''export {}'') \<and>
   fileCache (snd (loadFile True
     \<lparr> path_sep = CHR ''/'', readFileSync = (\<lambda>p. Inr ''export {}''),
       createSourceFile = (\<lambda>fileName sourceText langVer. (fileName, sourceText)),
       shouldFreeMemory = False, elapsedMs = 0 \<rparr>
     \<lparr> fileCache = [(''a.ts'', \<lparr> digest = ''d1'', value' = (''a.ts'', ''let a'') \<rparr>)],
       lastDigests = [(''a.ts'', ''d1'')],
       cacheStats = \<lparr> hits = 0, reads = 0, readTimeMs = 0 \<rparr> \<rparr>
     ''x.d.ts'' ''node_modules/x.d.ts'' ())) =
       [(''a.ts'', \<lparr> digest = ''d1'', value' = (''a.ts'', ''let a'') \<rparr>)]"
proof -
  let ?host = "\<lparr> path_sep = CHR ''/'', readFileSync = (\<lambda>p. Inr ''export {}''),
       createSourceFile = (\<lambda>fileName sourceText langVer. (fileName, sourceText)),
       shouldFreeMemory = False, elapsedMs = (0::int) \<rparr> :: (string \<times> string, unit) Host"
  let ?s = "\<lparr> fileCache = [(''a.ts'', \<lparr> digest = ''d1'', value' = (''a.ts'', ''let a'') \<rparr>)],
       lastDigests = [(''a.ts'', ''d1'')],
       cacheStats = \<lparr> hits = 0, reads = 0, readTimeMs = 0 \<rparr> \<rparr>"
  have unknown: "\<not> isKnownInput ?s ''node_modules/x.d.ts''"
    by (simp add: isKnownInput_def truthy_string_def js_get_def)
  have nonhermetic: "isNonHermeticInput (path_sep ?host) ''node_modules/x.d.ts''"
    by (simp add: isNonHermeticInput_def)
  have miss: "js_get (fileCache ?s) ''node_modules/x.d.ts'' = None"
    by (simp add: js_get_def)
  from loadFile_non_hermetic_not_cached [OF TrueI unknown nonhermetic miss, of "''x.d.ts''" "()"]
  show ?thesis by simp
qed

end
